theory Spec2Isabelle
  imports Complex_Main
begin

section \<open>Python values, exceptions and library primitives\<close>

text \<open>
  Exceptions of the Python program are values: a computation returns \<open>Inl e\<close> when the
  source raises \<open>e\<close> (or leaves the process through \<open>sys.exit\<close>), and \<open>Inr v\<close> when it
  returns \<open>v\<close>. Characters of a sequence are ASCII symbols, one \<open>char\<close> each.
\<close>

datatype error =
    SystemExit int
  | ValueError
  | KeyError char
  | OSError string
  | PermissionError string
  | StopIteration
  | IndexError

text \<open>
  A slice \<open>l[a:b]\<close> as Python computes it: a negative bound counts from the end, and
  both bounds are clamped into \<open>[0, len(l)]\<close>; an empty or inverted range gives \<open>[]\<close>.
\<close>

definition slice_bound :: "int \<Rightarrow> int \<Rightarrow> int" where
  "slice_bound n x = (if x < 0 then max (x + n) 0 else min x n)"

definition py_slice :: "'a list \<Rightarrow> int \<Rightarrow> int \<Rightarrow> 'a list" where
  "py_slice l a b =
     (let n = int (length l); lo = slice_bound n a; hi = slice_bound n b
      in take (nat (hi - lo)) (drop (nat lo) l))"

text \<open>\<open>range(n)\<close>: the integers \<open>0, 1, ..., n - 1\<close>, none when \<open>n \<le> 0\<close>.\<close>

definition py_range :: "int \<Rightarrow> int list" where
  "py_range n = map int [0..<nat n]"


text \<open>\<open>'%s' % i\<close> for an integer: its decimal numeral.\<close>

fun str_nat :: "nat \<Rightarrow> string" where
  "str_nat n =
     (if n < 10 then [char_of (48 + n)]
      else str_nat (n div 10) @ [char_of (48 + n mod 10)])"

declare str_nat.simps [simp del]

definition str_int :: "int \<Rightarrow> string" where
  "str_int i = (if i < 0 then CHR ''-'' # str_nat (nat (- i)) else str_nat (nat i))"

subsection \<open>Random sources\<close>

text \<open>
  The program draws from two generators: Python's module \<open>random\<close> and \<open>numpy.random\<close>.
  The state of each is the sequence of raw draws still to come; a call consumes the head.
  Nothing is assumed about the sequences, so a statement for every state is a statement for
  every outcome of the draws.
\<close>

record rnd =
  py :: "nat \<Rightarrow> nat"
  np :: "nat \<Rightarrow> rat"

text \<open>
  \<open>random.randrange(start, stop)\<close>: \<open>ValueError\<close> on an empty range (nothing is drawn
  then), otherwise the raw draw picks one of the \<open>stop - start\<close> values.
\<close>

definition randrange :: "int \<Rightarrow> int \<Rightarrow> rnd \<Rightarrow> error + (int \<times> rnd)" where
  "randrange start stop g =
     (if start < stop
      then Inr (start + int (py g 0 mod nat (stop - start)), g\<lparr>py := \<lambda>k. py g (Suc k)\<rparr>)
      else Inl ValueError)"

text \<open>\<open>numpy.random.rand()\<close>: the next value of the numpy generator, a number in \<open>[0, 1)\<close>.\<close>

definition rand :: "rnd \<Rightarrow> rat \<times> rnd" where
  "rand g = (np g 0, g\<lparr>np := \<lambda>k. np g (Suc k)\<rparr>)"

text \<open>
  \<open>random.sample(population, k)\<close>: \<open>k\<close> elements at distinct positions, in the order
  they are picked; each raw draw picks a position among those left. \<open>ValueError\<close> when
  \<open>k\<close> is negative or larger than the population.
\<close>

fun sample_picks :: "'a list \<Rightarrow> nat \<Rightarrow> (nat \<Rightarrow> nat) \<Rightarrow> 'a list \<times> (nat \<Rightarrow> nat)" where
  "sample_picks pool 0 t = ([], t)"
| "sample_picks pool (Suc k) t =
     (let j = t 0 mod length pool;
          (rest, t') = sample_picks (take j pool @ drop (Suc j) pool) k (\<lambda>i. t (Suc i))
      in (pool ! j # rest, t'))"

definition random_sample :: "'a list \<Rightarrow> int \<Rightarrow> rnd \<Rightarrow> error + ('a list \<times> rnd)" where
  "random_sample population k g =
     (if k < 0 \<or> int (length population) < k then Inl ValueError
      else (let (picked, t') = sample_picks population (nat k) (py g)
            in Inr (picked, g\<lparr>py := t'\<rparr>)))"

subsection \<open>Files\<close>

text \<open>
  The file system as the program sees it: the existing files with their contents, and the
  paths that cannot be opened for writing.
\<close>

record filesystem =
  files :: "string \<rightharpoonup> string"
  denied :: "string set"

text \<open>\<open>os.remove(path)\<close>: deletes an existing file, raises \<open>OSError\<close> otherwise.\<close>

definition os_remove :: "string \<Rightarrow> filesystem \<Rightarrow> (error + unit) \<times> filesystem" where
  "os_remove path fs =
     (if path \<in> dom (files fs) then (Inr (), fs\<lparr>files := (files fs)(path := None)\<rparr>)
      else (Inl (OSError path), fs))"

text \<open>\<open>open(path, 'a')\<close>: creates the file when it is missing.\<close>

definition open_append :: "string \<Rightarrow> filesystem \<Rightarrow> (error + unit) \<times> filesystem" where
  "open_append path fs =
     (if path \<in> denied fs then (Inl (PermissionError path), fs)
      else (Inr (), (case files fs path of
                       None \<Rightarrow> fs\<lparr>files := (files fs)(path \<mapsto> [])\<rparr>
                     | Some _ \<Rightarrow> fs)))"

definition append_text :: "string \<Rightarrow> string \<Rightarrow> filesystem \<Rightarrow> filesystem" where
  "append_text path txt fs =
     fs\<lparr>files := (files fs)(path \<mapsto> (case files fs path of None \<Rightarrow> txt | Some old \<Rightarrow> old @ txt))\<rparr>"

subsection \<open>Biopython records\<close>

text \<open>
  A \<open>SeqRecord\<close>: the fields the program reads and writes (\<open>seq\<close>, \<open>id\<close>,
  \<open>description\<close>, and the Phred qualities of \<open>letter_annotations\<close>, absent until
  they are set).
\<close>

record SeqRecord =
  sr_seq :: string
  sr_id :: string
  sr_description :: string
  sr_quality :: "int list option"

text \<open>
  The assignment \<open>read.seq = value\<close>: once the record has per-letter annotations, the
  setter takes a sequence of the same length only and raises \<open>ValueError\<close> otherwise.
\<close>

definition set_seq :: "SeqRecord \<Rightarrow> string \<Rightarrow> error + SeqRecord" where
  "set_seq read val =
     (if sr_quality read \<noteq> None \<and> length (sr_seq read) \<noteq> length val then Inl ValueError
      else Inr (read\<lparr>sr_seq := val\<rparr>))"

text \<open>
  \<open>Bio.SeqUtils.GC\<close>: the percentage of the symbols G, C and S (either case) in a
  sequence, 0 for the empty sequence.
\<close>

definition GC :: "string \<Rightarrow> rat" where
  "GC s =
     (if s = [] then 0
      else of_nat (length (filter (\<lambda>c. c \<in> set ''GCgcSs'') s)) * 100 / of_nat (length s))"

text \<open>
  \<open>SeqIO.write(read, handle, 'fastq-sanger')\<close>, as the text it appends. The title line
  is the id, followed by the description unless that is empty or already starts with the
  id; line breaks in either are written as spaces. A quality \<open>q\<close> is the symbol
  \<open>chr(min(126, q + 33))\<close>, so qualities above 93 are capped. \<open>ValueError\<close> when the
  qualities are absent, when there is not one for each symbol of the sequence, or when
  \<open>chr\<close> is given a negative number.
\<close>

definition clean :: "string \<Rightarrow> string" where
  "clean s = map (\<lambda>c. if c = CHR 0x0A \<or> c = CHR 0x0D then CHR '' '' else c) s"

definition is_space :: "char \<Rightarrow> bool" where
  "is_space c =
     (c \<in> {CHR '' '', CHR 0x09, CHR 0x0A, CHR 0x0B, CHR 0x0C, CHR 0x0D,
           CHR 0x1C, CHR 0x1D, CHR 0x1E, CHR 0x1F})"

text \<open>\<open>description.split(None, 1)[0]\<close>: the first word, \<open>IndexError\<close> when there is none.\<close>

definition first_word :: "string \<Rightarrow> error + string" where
  "first_word s =
     (case dropWhile is_space s of
        [] \<Rightarrow> Inl IndexError
      | c # cs \<Rightarrow> Inr (takeWhile (\<lambda>x. \<not> is_space x) (c # cs)))"

definition fastq_title :: "SeqRecord \<Rightarrow> error + string" where
  "fastq_title r =
     (let id_line = clean (sr_id r); description = clean (sr_description r)
      in if description = [] then Inr id_line
         else (case first_word description of
                 Inl e \<Rightarrow> Inl e
               | Inr w \<Rightarrow> if w = id_line then Inr description
                          else Inr (id_line @ '' '' @ description)))"

definition fastq_sanger :: "SeqRecord \<Rightarrow> error + string" where
  "fastq_sanger r =
     (case fastq_title r of
        Inl e \<Rightarrow> Inl e
      | Inr title \<Rightarrow>
          (case sr_quality r of
             None \<Rightarrow> Inl ValueError
           | Some qualities \<Rightarrow>
               if list_ex (\<lambda>q. q + 33 < 0) qualities then Inl ValueError
               else if length qualities \<noteq> length (sr_seq r) then Inl ValueError
               else Inr (''@'' @ title @ [CHR 0x0A] @ sr_seq r @ [CHR 0x0A] @ ''+'' @ [CHR 0x0A]
                         @ map (\<lambda>q. char_of (min 126 (q + 33))) qualities @ [CHR 0x0A])))"

section \<open>iss/util.py\<close>

subsection \<open>rev_comp\<close>

text \<open>The dictionary \<open>bases\<close> of \<open>rev_comp\<close>, entry by entry.\<close>

definition bases :: "char \<rightharpoonup> char" where
  "bases = map_of
     [(CHR ''a'', CHR ''t''), (CHR ''c'', CHR ''g''), (CHR ''g'', CHR ''c''),
      (CHR ''t'', CHR ''a''), (CHR ''y'', CHR ''r''), (CHR ''r'', CHR ''y''),
      (CHR ''w'', CHR ''w''), (CHR ''s'', CHR ''s''), (CHR ''k'', CHR ''m''),
      (CHR ''m'', CHR ''k''), (CHR ''n'', CHR ''n''), (CHR ''A'', CHR ''T''),
      (CHR ''C'', CHR ''G''), (CHR ''G'', CHR ''C''), (CHR ''T'', CHR ''A''),
      (CHR ''Y'', CHR ''R''), (CHR ''R'', CHR ''Y''), (CHR ''W'', CHR ''W''),
      (CHR ''S'', CHR ''S''), (CHR ''K'', CHR ''M''), (CHR ''M'', CHR ''K''),
      (CHR ''N'', CHR ''N'')]"

text \<open>
  The comprehension \<open>[bases[b] for b in sequence]\<close>: the first symbol that is not a key of
  the dictionary raises \<open>KeyError\<close>.
\<close>

fun complement :: "string \<Rightarrow> error + string" where
  "complement [] = Inr []"
| "complement (b # bs) =
     (case bases b of
        None \<Rightarrow> Inl (KeyError b)
      | Some c \<Rightarrow> (case complement bs of Inl e \<Rightarrow> Inl e | Inr cs \<Rightarrow> Inr (c # cs)))"

definition rev_comp :: "string \<Rightarrow> error + string" where
  "rev_comp s = (case complement s of Inl e \<Rightarrow> Inl e | Inr c \<Rightarrow> Inr (rev c))"

subsection \<open>split_list\<close>

definition split_list :: "'a list \<Rightarrow> int \<Rightarrow> 'a list list" where
  "split_list l n_parts =
     (let len = int (length l)
      in map (\<lambda>i. py_slice l (i * len div n_parts) ((i + 1) * len div n_parts))
           (py_range n_parts))"


subsection \<open>reservoir\<close>

text \<open>
  The inner loop \<open>while x < sample: x += 1; next(records)\<close>. The iterator \<open>records\<close>
  is the list of the records it has yet to give; \<open>next\<close> on an exhausted one raises.
\<close>

fun skip_records :: "int \<Rightarrow> int \<Rightarrow> 'a list \<Rightarrow> error + (int \<times> 'a list)" where
  "skip_records x sample [] = (if x < sample then Inl StopIteration else Inr (x, []))"
| "skip_records x sample (r # records) =
     (if x < sample then skip_records (x + 1) sample records else Inr (x, r # records))"

text \<open>The loop \<open>for sample in samples\<close>, collecting the records it yields.\<close>

fun reservoir_loop :: "int list \<Rightarrow> int \<Rightarrow> 'a list \<Rightarrow> error + 'a list" where
  "reservoir_loop [] x records = Inr []"
| "reservoir_loop (sample # samples) x records =
     (case skip_records x sample records of
        Inl e \<Rightarrow> Inl e
      | Inr (x', []) \<Rightarrow> Inl StopIteration
      | Inr (x', record # records') \<Rightarrow>
          (case reservoir_loop samples (x' + 1) records' of
             Inl e \<Rightarrow> Inl e
           | Inr ys \<Rightarrow> Inr (record # ys)))"

text \<open>
  The generator \<open>reservoir(records, record_list, n)\<close>, as the list of all the records it
  yields when it runs to its end, or the exception that ends it otherwise (the records
  yielded before an exception are not kept; a source as long as \<open>record_list\<close> is never
  exhausted). \<open>random.seed()\<close> restarts the generator from
  fresh entropy; the draws that follow are arbitrary before and after it.
\<close>

definition reservoir :: "'a list \<Rightarrow> 'b list \<Rightarrow> int option \<Rightarrow> rnd \<Rightarrow> error + ('a list \<times> rnd)" where
  "reservoir records record_list n g =
     (case n of
        None \<Rightarrow> Inr (records, g)
      | Some n \<Rightarrow>
          (let total = int (length record_list)
           in if \<not> n < total then Inl (SystemExit 1)
              else (case random_sample (py_range (total - 1)) n g of
                      Inl e \<Rightarrow> Inl e
                    | Inr (picked, g') \<Rightarrow>
                        (case reservoir_loop (sort picked) 0 records of
                           Inl e \<Rightarrow> Inl e
                         | Inr ys \<Rightarrow> Inr (ys, g')))))"

section \<open>iss/generator.py\<close>

subsection \<open>The error model\<close>

text \<open>
  The \<open>ErrorModel\<close> is used through its interface only: the read length, and four
  operations that may draw from the generators and may raise.
\<close>

record ErrorModel =
  read_length :: int
  random_insert_size :: "rnd \<Rightarrow> error + (int \<times> rnd)"
  introduce_indels ::
    "SeqRecord \<Rightarrow> string \<Rightarrow> string \<Rightarrow> int \<times> int \<Rightarrow> rnd \<Rightarrow> error + (string \<times> rnd)"
  introduce_error_scores :: "SeqRecord \<Rightarrow> string \<Rightarrow> rnd \<Rightarrow> error + (SeqRecord \<times> rnd)"
  mut_sequence :: "SeqRecord \<Rightarrow> string \<Rightarrow> rnd \<Rightarrow> error + (string \<times> rnd)"

subsection \<open>simulate_read\<close>

text \<open>
  The first \<open>try\<close> block of \<open>simulate_read\<close>, for a reference of length \<open>len_seq\<close>: the
  failed assertion ends the process with status 1; the \<open>ValueError\<close> of the first draw is
  caught and answered with a second draw, whose own exception is not caught.
\<close>

definition forward_start_block :: "int \<Rightarrow> int \<Rightarrow> int \<Rightarrow> rnd \<Rightarrow> error + (int \<times> rnd)" where
  "forward_start_block len_seq read_len insert_size g =
     (if \<not> read_len < len_seq then Inl (SystemExit 1)
      else (case randrange 0 (len_seq - (2 * read_len + insert_size)) g of
              Inr (forward_start, g') \<Rightarrow> Inr (forward_start, g')
            | Inl ValueError \<Rightarrow>
                (case randrange 0 (len_seq - read_len) g of
                   Inl e \<Rightarrow> Inl e
                 | Inr (drawn, g') \<Rightarrow> Inr (max 0 drawn, g'))
            | Inl e \<Rightarrow> Inl e))"

text \<open>The second \<open>try\<close> block: the reverse fragment, redrawn when the assertion fails.\<close>

definition reverse_block ::
  "int \<Rightarrow> int \<Rightarrow> int \<Rightarrow> int \<Rightarrow> rnd \<Rightarrow> error + ((int \<times> int) \<times> rnd)" where
  "reverse_block len_seq read_len insert_size forward_end g =
     (let reverse_start = forward_end + insert_size;
          reverse_end = reverse_start + read_len
      in if reverse_end < len_seq then Inr ((reverse_start, reverse_end), g)
         else (case randrange read_len len_seq g of
                 Inl e \<Rightarrow> Inl e
               | Inr (reverse_end, g') \<Rightarrow> Inr ((reverse_end - read_len, reverse_end), g')))"

text \<open>
  The three calls that turn a perfect read into a simulated one: indels, quality scores,
  mutations, each on the record as the previous call left it. The results of the first and
  the third are assigned to \<open>read.seq\<close>.
\<close>

definition apply_model ::
  "ErrorModel \<Rightarrow> SeqRecord \<Rightarrow> string \<Rightarrow> string \<Rightarrow> int \<times> int \<Rightarrow> rnd
     \<Rightarrow> error + (SeqRecord \<times> rnd)" where
  "apply_model em read orientation sequence bounds g =
     (case introduce_indels em read orientation sequence bounds g of
        Inl e \<Rightarrow> Inl e
      | Inr (s1, g1) \<Rightarrow>
     (case set_seq read s1 of
        Inl e \<Rightarrow> Inl e
      | Inr read1 \<Rightarrow>
     (case introduce_error_scores em read1 orientation g1 of
        Inl e \<Rightarrow> Inl e
      | Inr (read2, g2) \<Rightarrow>
     (case mut_sequence em read2 orientation g2 of
        Inl e \<Rightarrow> Inl e
      | Inr (s3, g3) \<Rightarrow>
     (case set_seq read2 s3 of
        Inl e \<Rightarrow> Inl e
      | Inr read3 \<Rightarrow> Inr (read3, g3))))))"

text \<open>
  The body of \<open>simulate_read\<close>. Besides the pair of reads it returns, the model hands
  out the two values the local variable \<open>bounds\<close> takes: the forward and the reverse
  fragment coordinates.
\<close>

definition simulate_read_bounds ::
  "SeqRecord \<Rightarrow> ErrorModel \<Rightarrow> int \<Rightarrow> rnd
     \<Rightarrow> error + (((SeqRecord \<times> SeqRecord) \<times> ((int \<times> int) \<times> (int \<times> int))) \<times> rnd)" where
  "simulate_read_bounds record em i g =
     (let sequence = sr_seq record;
          header = sr_id record;
          len_seq = int (length sequence);
          read_len = read_length em
      in case random_insert_size em g of
           Inl e \<Rightarrow> Inl e
         | Inr (insert_size, g0) \<Rightarrow>
       (case forward_start_block len_seq read_len insert_size g0 of
           Inl e \<Rightarrow> Inl e
         | Inr (forward_start, g1) \<Rightarrow>
       (let forward_end = forward_start + read_len;
            fbounds = (forward_start, forward_end);
            forward = \<lparr>sr_seq = py_slice sequence forward_start forward_end,
                       sr_id = header @ ''_'' @ str_int i @ ''_1'',
                       sr_description = [], sr_quality = None\<rparr>
        in case apply_model em forward ''forward'' sequence fbounds g1 of
           Inl e \<Rightarrow> Inl e
         | Inr (forward', g2) \<Rightarrow>
       (case reverse_block len_seq read_len insert_size forward_end g2 of
           Inl e \<Rightarrow> Inl e
         | Inr ((reverse_start, reverse_end), g3) \<Rightarrow>
       (case rev_comp (py_slice sequence reverse_start reverse_end) of
           Inl e \<Rightarrow> Inl e
         | Inr rc \<Rightarrow>
       (let rbounds = (reverse_start, reverse_end);
            reverse = \<lparr>sr_seq = rc,
                       sr_id = header @ ''_'' @ str_int i @ ''_2'',
                       sr_description = [], sr_quality = None\<rparr>
        in case apply_model em reverse ''reverse'' sequence rbounds g3 of
           Inl e \<Rightarrow> Inl e
         | Inr (reverse', g4) \<Rightarrow> Inr (((forward', reverse'), (fbounds, rbounds)), g4)))))))"

definition simulate_read ::
  "SeqRecord \<Rightarrow> ErrorModel \<Rightarrow> int \<Rightarrow> rnd \<Rightarrow> error + ((SeqRecord \<times> SeqRecord) \<times> rnd)" where
  "simulate_read record em i g =
     (case simulate_read_bounds record em i g of
        Inl e \<Rightarrow> Inl e
      | Inr ((pair, _), g') \<Rightarrow> Inr (pair, g'))"

subsection \<open>to_fastq\<close>

text \<open>The loop of \<open>to_fastq\<close>: one record to each of the two open files, pair by pair.\<close>

fun write_pairs ::
  "(SeqRecord \<times> SeqRecord) list \<Rightarrow> string \<Rightarrow> string \<Rightarrow> filesystem
     \<Rightarrow> (error + unit) \<times> filesystem" where
  "write_pairs [] f r fs = (Inr (), fs)"
| "write_pairs (read_tuple # rest) f r fs =
     (case fastq_sanger (fst read_tuple) of
        Inl e \<Rightarrow> (Inl e, fs)
      | Inr t1 \<Rightarrow>
          (let fs1 = append_text f t1 fs
           in case fastq_sanger (snd read_tuple) of
                Inl e \<Rightarrow> (Inl e, fs1)
              | Inr t2 \<Rightarrow> write_pairs rest f r (append_text r t2 fs1)))"

definition to_fastq ::
  "(SeqRecord \<times> SeqRecord) list \<Rightarrow> string \<Rightarrow> filesystem \<Rightarrow> (error + unit) \<times> filesystem" where
  "to_fastq generator output fs =
     (let output_forward = output @ ''_R1.fastq'';
          output_reverse = output @ ''_R2.fastq''
      in case open_append output_forward fs of
           (Inl (PermissionError p), fs1) \<Rightarrow> (Inl (SystemExit 1), fs1)
         | (Inl e, fs1) \<Rightarrow> (Inl e, fs1)
         | (Inr _, fs1) \<Rightarrow>
             (case open_append output_reverse fs1 of
                (Inl (PermissionError p), fs2) \<Rightarrow> (Inl (SystemExit 1), fs2)
              | (Inl e, fs2) \<Rightarrow> (Inl e, fs2)
              | (Inr _, fs2) \<Rightarrow> write_pairs generator output_forward output_reverse fs2))"

subsection \<open>reads\<close>

text \<open>
  The loop \<open>for i in range(n_pairs)\<close> of \<open>reads\<close>, over the indices still to come, with
  the list \<open>read_tuple_list\<close> built so far.
\<close>

fun reads_loop ::
  "SeqRecord \<Rightarrow> ErrorModel \<Rightarrow> bool \<Rightarrow> int list \<Rightarrow> (SeqRecord \<times> SeqRecord) list \<Rightarrow> rnd
     \<Rightarrow> error + ((SeqRecord \<times> SeqRecord) list \<times> rnd)" where
  "reads_loop record em gc_bias [] read_tuple_list g = Inr (read_tuple_list, g)"
| "reads_loop record em gc_bias (i # todo) read_tuple_list g =
     (case simulate_read record em i g of
        Inl e \<Rightarrow> Inl e
      | Inr ((forward, reverse), g1) \<Rightarrow>
          (if gc_bias then
             (let stiched_seq = sr_seq forward @ sr_seq reverse;
                  gc_content = GC stiched_seq
              in if 40 < gc_content \<and> gc_content < 60
                 then reads_loop record em gc_bias todo (read_tuple_list @ [(forward, reverse)]) g1
                 else (case rand g1 of
                         (u, g2) \<Rightarrow>
                           if u < 90 / 100
                           then reads_loop record em gc_bias todo
                                  (read_tuple_list @ [(forward, reverse)]) g2
                           else reads_loop record em gc_bias todo read_tuple_list g2))
           else reads_loop record em gc_bias todo (read_tuple_list @ [(forward, reverse)]) g1))"

text \<open>
  \<open>reads\<close>. A Python function returns a string or \<open>None\<close>; the value returned is an
  \<open>option\<close>, and the only \<open>return\<close> of the source gives the file name.
\<close>

definition reads ::
  "SeqRecord \<Rightarrow> ErrorModel \<Rightarrow> int \<Rightarrow> int \<Rightarrow> string \<Rightarrow> bool \<Rightarrow> rnd \<Rightarrow> filesystem
     \<Rightarrow> (error + (string option \<times> rnd)) \<times> filesystem" where
  "reads record em n_pairs cpu_number output gc_bias g fs =
     (case reads_loop record em gc_bias (py_range n_pairs) [] g of
        Inl e \<Rightarrow> (Inl e, fs)
      | Inr (read_tuple_list, g') \<Rightarrow>
          (let temp_file_name = output @ ''.iss.tmp.'' @ sr_id record @ ''.'' @ str_int cpu_number
           in case to_fastq read_tuple_list temp_file_name fs of
                (Inl e, fs') \<Rightarrow> (Inl e, fs')
              | (Inr _, fs') \<Rightarrow> (Inr (Some temp_file_name, g'), fs')))"

subsection \<open>cleanup\<close>

text \<open>
  \<open>cleanup\<close>: for each entry that is not \<open>None\<close>, the two removals in order; the
  first one that raises is answered by \<open>sys.exit(1)\<close>, with the file system as it is then.
\<close>

fun cleanup :: "string option list \<Rightarrow> filesystem \<Rightarrow> (error + unit) \<times> filesystem" where
  "cleanup [] fs = (Inr (), fs)"
| "cleanup (None # file_list) fs = cleanup file_list fs"
| "cleanup (Some temp_file # file_list) fs =
     (case os_remove (temp_file @ ''_R1.fastq'') fs of
        (Inl e, fs1) \<Rightarrow> (Inl (SystemExit 1), fs1)
      | (Inr _, fs1) \<Rightarrow>
          (case os_remove (temp_file @ ''_R2.fastq'') fs1 of
             (Inl e, fs2) \<Rightarrow> (Inl (SystemExit 1), fs2)
           | (Inr _, fs2) \<Rightarrow> cleanup file_list fs2))"

section \<open>Concrete inputs\<close>

text \<open>
  Inputs on which the definitions are evaluated: an error model with a fixed read length
  and insert size that leaves every read as it is and gives each base the quality 40, a
  reference of twelve bases and one without G or C, generators whose draws are all 0, count
  up from 5, or give 0.95 at every \<open>rand()\<close>, and a directory of temporary
  files in which the second worker's \<open>_R2\<close> file is missing.
\<close>

definition plain_model :: "int \<Rightarrow> int \<Rightarrow> ErrorModel" where
  "plain_model read_len insert_size =
     \<lparr>read_length = read_len,
      random_insert_size = (\<lambda>g. Inr (insert_size, g)),
      introduce_indels = (\<lambda>read orientation sequence bounds g. Inr (sr_seq read, g)),
      introduce_error_scores =
        (\<lambda>read orientation g. Inr (read\<lparr>sr_quality := Some (replicate (length (sr_seq read)) 40)\<rparr>, g)),
      mut_sequence = (\<lambda>read orientation g. Inr (sr_seq read, g))\<rparr>"

definition chr1 :: SeqRecord where
  "chr1 = \<lparr>sr_seq = ''ACGTACGTACGT'', sr_id = ''chr1'', sr_description = [], sr_quality = None\<rparr>"

definition zero_rnd :: rnd where
  "zero_rnd = \<lparr>py = (\<lambda>k. 0), np = (\<lambda>k. 0)\<rparr>"

definition tmp_files :: filesystem where
  "tmp_files =
     \<lparr>files = [''w0_R1.fastq'' \<mapsto> ''a'', ''w0_R2.fastq'' \<mapsto> ''b'', ''w1_R1.fastq'' \<mapsto> ''c''],
      denied = {}\<rparr>"

definition count_rnd :: rnd where
  "count_rnd = \<lparr>py = (\<lambda>k. 5 + k), np = (\<lambda>k. 0)\<rparr>"

definition poly_a :: SeqRecord where
  "poly_a = \<lparr>sr_seq = ''AAAAAAAAAAAA'', sr_id = ''polyA'', sr_description = [], sr_quality = None\<rparr>"

definition high_rnd :: rnd where
  "high_rnd = \<lparr>py = (\<lambda>k. 0), np = (\<lambda>k. 95 / 100)\<rparr>"

definition no_files :: filesystem where
  "no_files = \<lparr>files = Map.empty, denied = {}\<rparr>"

section \<open>rev_comp: the table and the involution\<close>

lemma bases_table:
  "bases b = Some c \<Longrightarrow> (b, c) \<in> set
     [(CHR ''a'', CHR ''t''), (CHR ''c'', CHR ''g''), (CHR ''g'', CHR ''c''),
      (CHR ''t'', CHR ''a''), (CHR ''y'', CHR ''r''), (CHR ''r'', CHR ''y''),
      (CHR ''w'', CHR ''w''), (CHR ''s'', CHR ''s''), (CHR ''k'', CHR ''m''),
      (CHR ''m'', CHR ''k''), (CHR ''n'', CHR ''n''), (CHR ''A'', CHR ''T''),
      (CHR ''C'', CHR ''G''), (CHR ''G'', CHR ''C''), (CHR ''T'', CHR ''A''),
      (CHR ''Y'', CHR ''R''), (CHR ''R'', CHR ''Y''), (CHR ''W'', CHR ''W''),
      (CHR ''S'', CHR ''S''), (CHR ''K'', CHR ''M''), (CHR ''M'', CHR ''K''),
      (CHR ''N'', CHR ''N'')]"
  unfolding bases_def by (rule map_of_SomeD)

lemma bases_symmetric:
  "bases b = Some c \<Longrightarrow> bases c = Some b"
proof -
  assume "bases b = Some c"
  from bases_table [OF this]
  have "b = CHR ''a'' \<and> c = CHR ''t'' \<or> b = CHR ''c'' \<and> c = CHR ''g'' \<or>
        b = CHR ''g'' \<and> c = CHR ''c'' \<or> b = CHR ''t'' \<and> c = CHR ''a'' \<or>
        b = CHR ''y'' \<and> c = CHR ''r'' \<or> b = CHR ''r'' \<and> c = CHR ''y'' \<or>
        b = CHR ''w'' \<and> c = CHR ''w'' \<or> b = CHR ''s'' \<and> c = CHR ''s'' \<or>
        b = CHR ''k'' \<and> c = CHR ''m'' \<or> b = CHR ''m'' \<and> c = CHR ''k'' \<or>
        b = CHR ''n'' \<and> c = CHR ''n'' \<or> b = CHR ''A'' \<and> c = CHR ''T'' \<or>
        b = CHR ''C'' \<and> c = CHR ''G'' \<or> b = CHR ''G'' \<and> c = CHR ''C'' \<or>
        b = CHR ''T'' \<and> c = CHR ''A'' \<or> b = CHR ''Y'' \<and> c = CHR ''R'' \<or>
        b = CHR ''R'' \<and> c = CHR ''Y'' \<or> b = CHR ''W'' \<and> c = CHR ''W'' \<or>
        b = CHR ''S'' \<and> c = CHR ''S'' \<or> b = CHR ''K'' \<and> c = CHR ''M'' \<or>
        b = CHR ''M'' \<and> c = CHR ''K'' \<or> b = CHR ''N'' \<and> c = CHR ''N''"
    by simp
  then show ?thesis
    by (elim disjE conjE) (simp_all add: bases_def)
qed

lemma complement_map:
  "set s \<subseteq> dom bases \<Longrightarrow> complement s = Inr (map (\<lambda>b. the (bases b)) s)"
  by (induction s) auto

lemma the_bases_twice:
  assumes "b \<in> dom bases"
  shows "the (bases (the (bases b))) = b"
proof -
  from assms obtain c where c: "bases b = Some c" by blast
  from bases_symmetric [OF c] c show ?thesis by simp
qed

lemma the_bases_dom:
  assumes "b \<in> dom bases"
  shows "the (bases b) \<in> dom bases"
proof -
  from assms obtain c where c: "bases b = Some c" by blast
  from bases_symmetric [OF c] c show ?thesis by auto
qed


lemma rev_comp_map:
  assumes "set s \<subseteq> dom bases"
  shows "rev_comp s = Inr (rev (map (\<lambda>b. the (bases b)) s))"
  by (simp add: rev_comp_def complement_map [OF assms])

text \<open>
  Claim C6. On every sequence whose symbols are all keys of the table, \<open>rev_comp\<close>
  returns, and applied to its own result it returns the sequence it started from; and
  \<open>rev_comp("ACGT")\<close> is \<open>"ACGT"\<close>.
\<close>

theorem rev_comp_involutive:
  "(set s \<subseteq> dom bases \<longrightarrow> (\<exists>t. rev_comp s = Inr t \<and> rev_comp t = Inr s))
   \<and> rev_comp ''ACGT'' = Inr ''ACGT''"
proof (intro conjI impI)
  assume s: "set s \<subseteq> dom bases"
  let ?t = "rev (map (\<lambda>b. the (bases b)) s)"
  have t: "set ?t \<subseteq> dom bases"
    using s the_bases_dom by auto
  have "rev (map (\<lambda>b. the (bases b)) ?t) = map (\<lambda>b. the (bases (the (bases b)))) s"
    by (simp add: rev_map comp_def)
  also have "\<dots> = s"
    using s by (induction s) (simp_all add: the_bases_twice)
  finally have "rev_comp ?t = Inr s"
    by (simp add: rev_comp_map [OF t])
  with rev_comp_map [OF s] show "\<exists>t. rev_comp s = Inr t \<and> rev_comp t = Inr s"
    by blast
next
  show "rev_comp ''ACGT'' = Inr ''ACGT''"
    by (simp add: rev_comp_def bases_def)
qed

theorem rev_comp_involutive_witness:
  "set ''AcgtYRwskMN'' \<subseteq> dom bases
   \<and> (\<exists>t. rev_comp ''AcgtYRwskMN'' = Inr t \<and> rev_comp t = Inr ''AcgtYRwskMN'')"
proof -
  have h: "set ''AcgtYRwskMN'' \<subseteq> dom bases"
    by (simp add: bases_def)
  from rev_comp_involutive [of "''AcgtYRwskMN''"] h show ?thesis
    by blast
qed

text \<open>
  Claim C5. The docstring of \<open>rev_comp\<close> takes an IUPAC sequence that can be
  ambiguous, yet the table has no entry for the ambiguity codes B, D, H and V: on each of
  them, in either case, the lookup raises \<open>KeyError\<close> instead of giving the complement.
\<close>

theorem rev_comp_rejects_iupac_codes:
  "rev_comp ''ACBT'' = Inl (KeyError (CHR ''B''))
   \<and> map (\<lambda>c. rev_comp [c]) ''BDHVbdhv'' = map (\<lambda>c. Inl (KeyError c)) ''BDHVbdhv''"
  by (simp add: rev_comp_def bases_def)

section \<open>split_list: the parts partition the list\<close>

lemma slice_bound_id: "0 \<le> x \<Longrightarrow> x \<le> n \<Longrightarrow> slice_bound n x = x"
  by (simp add: slice_bound_def)

lemma py_slice_take_drop:
  "0 \<le> a \<Longrightarrow> a \<le> b \<Longrightarrow> b \<le> int (length l) \<Longrightarrow>
   py_slice l a b = take (nat b - nat a) (drop (nat a) l)"
  by (simp add: py_slice_def Let_def slice_bound_id nat_diff_distrib)

lemma cut_mono:
  fixes n len :: int
  assumes "0 < n" "0 \<le> len" "0 \<le> i"
  shows "i * len div n \<le> (i + 1) * len div n"
proof -
  have "i * len \<le> (i + 1) * len" using assms by (simp add: distrib_right)
  then show ?thesis using assms(1) by (rule zdiv_mono1)
qed

lemma cut_nonneg:
  fixes n len :: int
  assumes "0 < n" "0 \<le> len" "0 \<le> i"
  shows "0 \<le> i * len div n"
  using assms by (simp add: pos_imp_zdiv_nonneg_iff)

lemma cut_le:
  fixes n len :: int
  assumes "0 < n" "0 \<le> len" "0 \<le> i" "i \<le> n"
  shows "i * len div n \<le> len"
proof -
  have "i * len \<le> n * len" using assms by (simp add: mult_right_mono)
  then have "i * len div n \<le> n * len div n" using assms(1) by (rule zdiv_mono1)
  then show ?thesis using assms(1) by simp
qed

lemma split_prefix:
  fixes l :: "'a list"
  assumes n: "0 < n"
  shows "k \<le> nat n \<Longrightarrow>
     concat (map (\<lambda>i. py_slice l (i * int (length l) div n) ((i + 1) * int (length l) div n))
        (map int [0..<k])) = take (nat (int k * int (length l) div n)) l"
proof (induction k)
  case 0
  then show ?case by simp
next
  case (Suc k)
  let ?len = "int (length l)"
  let ?a = "int k * ?len div n" and ?b = "(int k + 1) * ?len div n"
  have k: "int k + 1 \<le> n" using Suc.prems by simp
  have a0: "0 \<le> ?a" using n by (intro cut_nonneg) simp_all
  have ab: "?a \<le> ?b" using n by (intro cut_mono) simp_all
  have bl: "?b \<le> ?len" using n k by (intro cut_le) simp_all
  have "take (nat ?a) l @ py_slice l ?a ?b = take (nat ?a) l @ take (nat ?b - nat ?a) (drop (nat ?a) l)"
    by (simp add: py_slice_take_drop [OF a0 ab bl])
  also have "\<dots> = take (nat ?a + (nat ?b - nat ?a)) l"
    by (simp add: take_add)
  also have "nat ?a + (nat ?b - nat ?a) = nat ?b"
    using a0 ab by simp
  finally have step: "take (nat ?a) l @ py_slice l ?a ?b = take (nat ?b) l" .
  have b': "(int (Suc k)) * ?len div n = ?b" by (simp add: add.commute)
  from Suc show ?case
    by (simp add: step b' del: of_nat_Suc)
qed

text \<open>
  Claim C10. For \<open>n_parts \<ge> 1\<close>, \<open>split_list\<close> returns \<open>n_parts\<close> lists, and
  their concatenation in order is the list that was split.
\<close>

theorem split_list_partition:
  "1 \<le> n_parts \<Longrightarrow>
   length (split_list l n_parts) = nat n_parts \<and> concat (split_list l n_parts) = l"
proof
  assume n: "1 \<le> n_parts"
  show "length (split_list l n_parts) = nat n_parts"
    by (simp add: split_list_def py_range_def Let_def)
  have n0: "0 < n_parts" using n by simp
  have "concat (split_list l n_parts) = take (nat (int (nat n_parts) * int (length l) div n_parts)) l"
    unfolding split_list_def py_range_def Let_def
    by (rule split_prefix [OF n0]) simp
  also have "int (nat n_parts) * int (length l) div n_parts = int (length l)"
    using n0 by simp
  finally show "concat (split_list l n_parts) = l" by simp
qed

theorem split_list_partition_witness:
  "(1::int) \<le> 3 \<and> split_list ''ACGTACG'' 3 = [''AC'', ''GT'', ''ACG'']
   \<and> length (split_list ''ACGTACG'' 3) = nat 3 \<and> concat (split_list ''ACGTACG'' 3) = ''ACGTACG''"
proof -
  have h: "(1::int) \<le> 3" by simp
  have e: "split_list ''ACGTACG'' 3 = [''AC'', ''GT'', ''ACG'']"
    by (simp add: split_list_def py_range_def py_slice_def slice_bound_def Let_def upt_rec)
  from split_list_partition [OF h, of "''ACGTACG''"] h e show ?thesis by simp
qed

section \<open>Sampling of the fragment coordinates\<close>

lemma randrange_in_range:
  assumes "start < stop"
  shows "\<exists>v g'. randrange start stop g = Inr (v, g') \<and> start \<le> v \<and> v < stop"
proof -
  have "0 < nat (stop - start)" using assms by simp
  then have "py g 0 mod nat (stop - start) < nat (stop - start)" by (rule mod_less_divisor)
  then have "int (py g 0 mod nat (stop - start)) < stop - start" by linarith
  then show ?thesis using assms by (simp add: randrange_def)
qed

lemma randrange_empty: "\<not> start < stop \<Longrightarrow> randrange start stop g = Inl ValueError"
  by (simp add: randrange_def)

lemma randrange_reaches:
  assumes "start \<le> v" "v < stop"
  shows "\<exists>g'. randrange start stop (g\<lparr>py := \<lambda>k. nat (v - start)\<rparr>) = Inr (v, g')"
  using assms by (simp add: randrange_def)

lemma randrange_uniform:
  assumes "start \<le> v" "v < stop"
  shows "card {u. u < k * nat (stop - start) \<and> start + int (u mod nat (stop - start)) = v} = k"
proof -
  define n where "n = nat (stop - start)"
  define r where "r = nat (v - start)"
  have n: "0 < n" and r: "r < n" using assms by (simp_all add: n_def r_def)
  have eq: "start + int (u mod n) = v \<longleftrightarrow> u mod n = r" for u
    using assms by (auto simp: r_def)
  have "{u. u < k * n \<and> u mod n = r} = (\<lambda>j. r + j * n) ` {..<k}"
  proof (intro set_eqI iffI)
    fix u assume "u \<in> {u. u < k * n \<and> u mod n = r}"
    then have u: "u < k * n" "u mod n = r" by simp_all
    have "u div n < k" using u(1) n by (simp add: less_mult_imp_div_less)
    moreover have "u = r + (u div n) * n" using u(2) by (metis add.commute div_mult_mod_eq)
    ultimately show "u \<in> (\<lambda>j. r + j * n) ` {..<k}" by blast
  next
    fix u assume "u \<in> (\<lambda>j. r + j * n) ` {..<k}"
    then obtain j where j: "j < k" "u = r + j * n" by blast
    have "r + j * n < n + j * n" using r by simp
    also have "\<dots> = Suc j * n" by simp
    also have "\<dots> \<le> k * n" using j(1) by (intro mult_le_mono1) simp
    finally have "u < k * n" using j(2) by simp
    moreover have "u mod n = r" using j(2) r by simp
    ultimately show "u \<in> {u. u < k * n \<and> u mod n = r}" by simp
  qed
  moreover have "inj_on (\<lambda>j. r + j * n) {..<k}" using n by (auto simp: inj_on_def)
  ultimately have "card {u. u < k * n \<and> u mod n = r} = k"
    by (simp add: card_image)
  then have "card {u. u < k * n \<and> start + int (u mod n) = v} = k"
    by (simp add: eq)
  then show ?thesis by (simp add: n_def)
qed

lemma randrange_counts:
  assumes "start \<le> v" "v < stop"
  shows "card {u. u < k * nat (stop - start)
                \<and> (\<exists>g'. randrange start stop (g\<lparr>py := \<lambda>i. u\<rparr>) = Inr (v, g'))} = k"
proof -
  have "(\<exists>g'. randrange start stop (g\<lparr>py := \<lambda>i. u\<rparr>) = Inr (v, g'))
        \<longleftrightarrow> start + int (u mod nat (stop - start)) = v" for u
    using assms by (simp add: randrange_def)
  then show ?thesis using randrange_uniform [OF assms, of k] by simp
qed

text \<open>
  Claim C8. With \<open>R < L\<close> the forward start is always sampled, never raised on. When
  \<open>L > 2R + I\<close> it is the draw \<open>randrange(0, L - (2R + I))\<close>: a value of that range, and
  every value of the range comes from the same number of raw draws. Otherwise the first
  draw raises \<open>ValueError\<close> and the start is \<open>max(0, randrange(0, L - R))\<close>, a draw
  that cannot fail since \<open>L - R > 0\<close>, again with every value of \<open>[0, L - R)\<close> as
  likely as any other.
\<close>

theorem forward_start_never_raises:
  assumes "R < L"
  shows "(2 * R + I < L \<longrightarrow>
            forward_start_block L R I g = randrange 0 (L - (2 * R + I)) g
          \<and> (\<exists>fs g'. forward_start_block L R I g = Inr (fs, g') \<and> 0 \<le> fs \<and> fs < L - (2 * R + I))
          \<and> (\<forall>v k. 0 \<le> v \<and> v < L - (2 * R + I) \<longrightarrow>
                 card {u. u < k * nat (L - (2 * R + I))
                        \<and> (\<exists>g'. forward_start_block L R I (g\<lparr>py := \<lambda>i. u\<rparr>) = Inr (v, g'))} = k))
       \<and> (\<not> 2 * R + I < L \<longrightarrow>
            (\<exists>drawn g'. randrange 0 (L - R) g = Inr (drawn, g') \<and> 0 \<le> drawn \<and> drawn < L - R
               \<and> forward_start_block L R I g = Inr (max 0 drawn, g'))
          \<and> (\<forall>v k. 0 \<le> v \<and> v < L - R \<longrightarrow>
                 card {u. u < k * nat (L - R)
                        \<and> (\<exists>g'. forward_start_block L R I (g\<lparr>py := \<lambda>i. u\<rparr>) = Inr (v, g'))} = k))"
proof (intro conjI impI allI)
  assume p: "2 * R + I < L"
  then have "0 < L - (2 * R + I)" by simp
  from randrange_in_range [OF this, of g]
  obtain v g' where v: "randrange 0 (L - (2 * R + I)) g = Inr (v, g')" "0 \<le> v" "v < L - (2 * R + I)"
    by blast
  show "forward_start_block L R I g = randrange 0 (L - (2 * R + I)) g"
    using assms v(1) by (simp add: forward_start_block_def)
  with v show "\<exists>fs g'. forward_start_block L R I g = Inr (fs, g') \<and> 0 \<le> fs \<and> fs < L - (2 * R + I)"
    by simp
next
  fix v :: int and k :: nat
  assume p: "2 * R + I < L" and v: "0 \<le> v \<and> v < L - (2 * R + I)"
  have "forward_start_block L R I h = randrange 0 (L - (2 * R + I)) h" for h
    using assms p by (simp add: forward_start_block_def randrange_def)
  then show "card {u. u < k * nat (L - (2 * R + I))
                    \<and> (\<exists>g'. forward_start_block L R I (g\<lparr>py := \<lambda>i. u\<rparr>) = Inr (v, g'))} = k"
    using randrange_counts [of 0 v "L - (2 * R + I)" k g] v by simp
next
  fix v :: int and k :: nat
  assume p: "\<not> 2 * R + I < L" and v: "0 \<le> v \<and> v < L - R"
  have "(\<exists>g'. forward_start_block L R I h = Inr (v, g')) \<longleftrightarrow> (\<exists>g'. randrange 0 (L - R) h = Inr (v, g'))" for h
    using assms p by (simp add: forward_start_block_def randrange_def)
  then show "card {u. u < k * nat (L - R)
                    \<and> (\<exists>g'. forward_start_block L R I (g\<lparr>py := \<lambda>i. u\<rparr>) = Inr (v, g'))} = k"
    using randrange_counts [of 0 v "L - R" k g] v by simp
next
  assume p: "\<not> 2 * R + I < L"
  then have e: "randrange 0 (L - (2 * R + I)) g = Inl ValueError"
    by (intro randrange_empty) simp
  from assms have "0 < L - R" by simp
  from randrange_in_range [OF this, of g]
  obtain v g' where v: "randrange 0 (L - R) g = Inr (v, g')" "0 \<le> v" "v < L - R"
    by blast
  have "forward_start_block L R I g = Inr (max 0 v, g')"
    using assms e v(1) by (simp add: forward_start_block_def)
  with v show "\<exists>drawn g'. randrange 0 (L - R) g = Inr (drawn, g') \<and> 0 \<le> drawn \<and> drawn < L - R
               \<and> forward_start_block L R I g = Inr (max 0 drawn, g')"
    by blast
qed

text \<open>
  Claim C9. The reverse fragment is \<open>[forward_end + I, forward_end + I + R)\<close> when that
  end is below \<open>L\<close>. Otherwise \<open>reverse_end\<close> is the draw \<open>randrange(R, L)\<close> and
  \<open>reverse_start = reverse_end - R\<close>: the result is the same for every forward end that
  takes this branch, and every value of \<open>[R, L)\<close> comes from the same number of raw
  draws. (\<open>simulate_read\<close> reaches this block only with \<open>R < L\<close>: the first block leaves
  the process otherwise.)
\<close>

theorem reverse_fragment_redrawn:
  assumes "R < L"
  shows "(fe + I + R < L \<longrightarrow> reverse_block L R I fe g = Inr ((fe + I, fe + I + R), g))
       \<and> (\<not> fe + I + R < L \<longrightarrow>
            (\<exists>reverse_end g'. randrange R L g = Inr (reverse_end, g')
               \<and> R \<le> reverse_end \<and> reverse_end < L
               \<and> reverse_block L R I fe g = Inr ((reverse_end - R, reverse_end), g'))
          \<and> (\<forall>fe'. \<not> fe' + I + R < L \<longrightarrow> reverse_block L R I fe' g = reverse_block L R I fe g)
          \<and> (\<forall>v k. R \<le> v \<and> v < L \<longrightarrow>
                 card {u. u < k * nat (L - R)
                        \<and> (\<exists>g'. reverse_block L R I fe (g\<lparr>py := \<lambda>i. u\<rparr>) = Inr ((v - R, v), g'))} = k))"
proof (intro conjI impI allI)
  assume "fe + I + R < L"
  then show "reverse_block L R I fe g = Inr ((fe + I, fe + I + R), g)"
    by (simp add: reverse_block_def Let_def)
next
  assume n: "\<not> fe + I + R < L"
  from randrange_in_range [OF assms, of g]
  obtain v g' where v: "randrange R L g = Inr (v, g')" "R \<le> v" "v < L"
    by blast
  have "reverse_block L R I fe g = Inr ((v - R, v), g')"
    using n v(1) by (simp add: reverse_block_def Let_def)
  with v show "\<exists>reverse_end g'. randrange R L g = Inr (reverse_end, g')
               \<and> R \<le> reverse_end \<and> reverse_end < L
               \<and> reverse_block L R I fe g = Inr ((reverse_end - R, reverse_end), g')"
    by blast
next
  fix fe'
  assume "\<not> fe + I + R < L" and "\<not> fe' + I + R < L"
  then show "reverse_block L R I fe' g = reverse_block L R I fe g"
    by (simp add: reverse_block_def Let_def)
next
  fix v :: int and k :: nat
  assume n: "\<not> fe + I + R < L" and v: "R \<le> v \<and> v < L"
  have "(\<exists>g'. reverse_block L R I fe h = Inr ((v - R, v), g')) \<longleftrightarrow> (\<exists>g'. randrange R L h = Inr (v, g'))" for h
    using n by (auto simp: reverse_block_def Let_def split: sum.splits)
  then show "card {u. u < k * nat (L - R)
                    \<and> (\<exists>g'. reverse_block L R I fe (g\<lparr>py := \<lambda>i. u\<rparr>) = Inr ((v - R, v), g'))} = k"
    using randrange_counts [of R v L k g] v by simp
qed

lemma forward_start_block_bounds:
  assumes "forward_start_block L R I g = Inr (fs, g1)" "0 \<le> I" "0 < R"
  shows "R < L \<and> 0 \<le> fs \<and> fs + R < L"
proof -
  have RL: "R < L" using assms(1) by (simp add: forward_start_block_def split: if_splits)
  show ?thesis
  proof (cases "2 * R + I < L")
    case True
    have "0 < L - (2 * R + I)" using True by simp
    from randrange_in_range [OF this, of g]
    obtain v g' where v: "randrange 0 (L - (2 * R + I)) g = Inr (v, g')" "0 \<le> v" "v < L - (2 * R + I)"
      by blast
    then have "forward_start_block L R I g = Inr (v, g')"
      using RL by (simp add: forward_start_block_def)
    with assms v RL show ?thesis by simp
  next
    case False
    then have e: "randrange 0 (L - (2 * R + I)) g = Inl ValueError"
      by (intro randrange_empty) simp
    from RL have "0 < L - R" by simp
    from randrange_in_range [OF this, of g]
    obtain v g' where v: "randrange 0 (L - R) g = Inr (v, g')" "0 \<le> v" "v < L - R"
      by blast
    have "forward_start_block L R I g = Inr (max 0 v, g')"
      using RL e v(1) by (simp add: forward_start_block_def)
    with assms v RL show ?thesis by simp
  qed
qed

lemma reverse_block_bounds:
  assumes "reverse_block L R I fe g = Inr ((rs, re), g')" "R < L" "0 \<le> I" "0 < R" "0 \<le> fe"
  shows "0 \<le> rs \<and> rs < re \<and> re < L"
proof (cases "fe + I + R < L")
  case True
  then have "reverse_block L R I fe g = Inr ((fe + I, fe + I + R), g)"
    by (simp add: reverse_block_def Let_def)
  with assms True show ?thesis by simp
next
  case False
  from randrange_in_range [OF assms(2), of g]
  obtain v g2 where v: "randrange R L g = Inr (v, g2)" "R \<le> v" "v < L"
    by blast
  have "reverse_block L R I fe g = Inr ((v - R, v), g2)"
    using False v(1) by (simp add: reverse_block_def Let_def)
  with assms v show ?thesis by simp
qed

lemma simulate_read_bounds_blocks:
  assumes "simulate_read_bounds record em i g = Inr ((pair, ((fs, fe), (rs, re))), g')"
  shows "\<exists>I g0 g1 g2 g3.
           random_insert_size em g = Inr (I, g0)
         \<and> forward_start_block (int (length (sr_seq record))) (read_length em) I g0 = Inr (fs, g1)
         \<and> fe = fs + read_length em
         \<and> reverse_block (int (length (sr_seq record))) (read_length em) I fe g2 = Inr ((rs, re), g3)"
  using assms unfolding simulate_read_bounds_def Let_def
  by (auto split: sum.splits prod.splits)

text \<open>
  Claim C1, amended. For a read length \<open>R\<close> with \<open>0 < R < L\<close> and an insert size
  \<open>I \<ge> 0\<close> returned by the error model, the coordinates that \<open>simulate_read\<close> uses
  satisfy \<open>0 \<le> forward_start < forward_end \<le> L\<close> and
  \<open>0 \<le> reverse_start < reverse_end \<le> L\<close>, whichever branches the two blocks take.
\<close>

theorem simulate_read_coordinates:
  assumes "simulate_read_bounds record em i g = Inr ((pair, ((fs, fe), (rs, re))), g')"
    and "random_insert_size em g = Inr (I, g0)" and "0 \<le> I"
    and "0 < read_length em" and "read_length em < int (length (sr_seq record))"
  shows "0 \<le> fs \<and> fs < fe \<and> fe \<le> int (length (sr_seq record))
       \<and> 0 \<le> rs \<and> rs < re \<and> re \<le> int (length (sr_seq record))"
proof -
  let ?L = "int (length (sr_seq record))" and ?R = "read_length em"
  from simulate_read_bounds_blocks [OF assms(1)] assms(2)
  obtain g1 g2 g3 where
    f: "forward_start_block ?L ?R I g0 = Inr (fs, g1)" and fe: "fe = fs + ?R" and
    r: "reverse_block ?L ?R I fe g2 = Inr ((rs, re), g3)"
    by auto
  from forward_start_block_bounds [OF f assms(3,4)]
  have 1: "0 \<le> fs" "fs + ?R < ?L" by simp_all
  have "0 \<le> fe" using 1 fe assms(4) by simp
  from reverse_block_bounds [OF r assms(5,3,4) this]
  have 2: "0 \<le> rs" "rs < re" "re < ?L" by simp_all
  from 1 2 fe assms(4) show ?thesis by simp
qed

section \<open>The sampling on concrete inputs\<close>

lemma str_int_0: "str_int 0 = ''0''"
  by code_simp

lemmas sim_defs = simulate_read_bounds_def forward_start_block_def reverse_block_def
  apply_model_def set_seq_def randrange_def plain_model_def chr1_def Let_def
  py_slice_def slice_bound_def rev_comp_def bases_def str_int_0

text \<open>
  Claim C1 as stated fails for a read length that is not positive: with \<open>R = 0 < L\<close>
  the fragments are empty, \<open>forward_start = forward_end\<close> and
  \<open>reverse_start = reverse_end\<close>.
\<close>

theorem simulate_read_zero_length_counterexample:
  "read_length (plain_model 0 2) < int (length (sr_seq chr1))
   \<and> random_insert_size (plain_model 0 2) zero_rnd = Inr (2, zero_rnd)
   \<and> map_sum id (snd \<circ> fst) (simulate_read_bounds chr1 (plain_model 0 2) 0 zero_rnd)
       = Inr ((0, 0), (2, 2))"
  by (simp add: sim_defs zero_rnd_def)

theorem simulate_read_coordinates_witness:
  "simulate_read_bounds chr1 (plain_model 4 7) 0 count_rnd =
     Inr (((\<lparr>sr_seq = ''CGTA'', sr_id = ''chr1_0_1'', sr_description = [],
               sr_quality = Some [40, 40, 40, 40]\<rparr>,
            \<lparr>sr_seq = ''GTAC'', sr_id = ''chr1_0_2'', sr_description = [],
               sr_quality = Some [40, 40, 40, 40]\<rparr>),
           ((5, 9), (6, 10))), \<lparr>py = (\<lambda>k. 7 + k), np = (\<lambda>k. 0)\<rparr>)
   \<and> random_insert_size (plain_model 4 7) count_rnd = Inr (7, count_rnd)
   \<and> (0::int) \<le> 7 \<and> 0 < read_length (plain_model 4 7)
   \<and> read_length (plain_model 4 7) < int (length (sr_seq chr1))
   \<and> (0::int) \<le> 5 \<and> (5::int) < 9 \<and> 9 \<le> int (length (sr_seq chr1))
   \<and> (0::int) \<le> 6 \<and> (6::int) < 10 \<and> 10 \<le> int (length (sr_seq chr1))"
proof -
  have a: "simulate_read_bounds chr1 (plain_model 4 7) 0 count_rnd =
     Inr (((\<lparr>sr_seq = ''CGTA'', sr_id = ''chr1_0_1'', sr_description = [],
               sr_quality = Some [40, 40, 40, 40]\<rparr>,
            \<lparr>sr_seq = ''GTAC'', sr_id = ''chr1_0_2'', sr_description = [],
               sr_quality = Some [40, 40, 40, 40]\<rparr>),
           ((5, 9), (6, 10))), \<lparr>py = (\<lambda>k. 7 + k), np = (\<lambda>k. 0)\<rparr>)"
    by (simp add: sim_defs count_rnd_def)
  have b: "random_insert_size (plain_model 4 7) count_rnd = Inr (7, count_rnd)"
    by (simp add: plain_model_def)
  have c: "(0::int) \<le> 7" by simp
  have d: "0 < read_length (plain_model 4 7)" by (simp add: plain_model_def)
  have e: "read_length (plain_model 4 7) < int (length (sr_seq chr1))"
    by (simp add: plain_model_def chr1_def)
  from simulate_read_coordinates [OF a b c d e] a b c d e show ?thesis by simp
qed

theorem forward_start_never_raises_witness:
  "(4::int) < 12 \<and> \<not> 2 * 4 + 7 < (12::int)
   \<and> (\<exists>drawn g'. randrange 0 (12 - 4) count_rnd = Inr (drawn, g') \<and> 0 \<le> drawn \<and> drawn < 12 - 4
         \<and> forward_start_block 12 4 7 count_rnd = Inr (max 0 drawn, g'))
   \<and> forward_start_block 12 4 7 count_rnd = Inr (5, \<lparr>py = (\<lambda>k. 6 + k), np = (\<lambda>k. 0)\<rparr>)
   \<and> 2 * 4 + 2 < (12::int)
   \<and> forward_start_block 12 4 2 count_rnd = randrange 0 (12 - (2 * 4 + 2)) count_rnd
   \<and> forward_start_block 12 4 2 count_rnd = Inr (1, \<lparr>py = (\<lambda>k. 6 + k), np = (\<lambda>k. 0)\<rparr>)"
proof -
  have h: "(4::int) < 12" by simp
  have e1: "forward_start_block 12 4 7 count_rnd = Inr (5, \<lparr>py = (\<lambda>k. 6 + k), np = (\<lambda>k. 0)\<rparr>)"
    by (simp add: forward_start_block_def randrange_def count_rnd_def)
  have e2: "forward_start_block 12 4 2 count_rnd = Inr (1, \<lparr>py = (\<lambda>k. 6 + k), np = (\<lambda>k. 0)\<rparr>)"
    by (simp add: forward_start_block_def randrange_def count_rnd_def)
  from forward_start_never_raises [OF h, of 7 count_rnd] forward_start_never_raises [OF h, of 2 count_rnd]
    e1 e2 show ?thesis by simp
qed

theorem reverse_fragment_redrawn_witness:
  "(4::int) < 12 \<and> \<not> 9 + 7 + 4 < (12::int)
   \<and> (\<exists>reverse_end g'. randrange 4 12 count_rnd = Inr (reverse_end, g')
         \<and> 4 \<le> reverse_end \<and> reverse_end < 12
         \<and> reverse_block 12 4 7 9 count_rnd = Inr ((reverse_end - 4, reverse_end), g'))
   \<and> reverse_block 12 4 7 9 count_rnd = Inr ((5, 9), \<lparr>py = (\<lambda>k. 6 + k), np = (\<lambda>k. 0)\<rparr>)
   \<and> 4 + 2 + 4 < (12::int)
   \<and> reverse_block 12 4 2 4 count_rnd = Inr ((6, 10), count_rnd)"
proof -
  have h: "(4::int) < 12" by simp
  have e1: "reverse_block 12 4 7 9 count_rnd = Inr ((5, 9), \<lparr>py = (\<lambda>k. 6 + k), np = (\<lambda>k. 0)\<rparr>)"
    by (simp add: reverse_block_def randrange_def count_rnd_def)
  from reverse_fragment_redrawn [OF h, of 9 7 count_rnd] reverse_fragment_redrawn [OF h, of 4 2 count_rnd]
    e1 show ?thesis by simp
qed

section \<open>cleanup\<close>

text \<open>
  Claim C2 as stated fails: with the \<open>_R1\<close> file of a prefix present and its \<open>_R2\<close>
  file missing, \<open>cleanup\<close> leaves with status 1, but the first \<open>os.remove\<close> has
  already deleted the \<open>_R1\<close> file by then.
\<close>

theorem cleanup_missing_R2_counterexample:
  "''w1_R1.fastq'' \<in> dom (files tmp_files) \<and> ''w1_R2.fastq'' \<notin> dom (files tmp_files)
   \<and> fst (cleanup [Some ''w1''] tmp_files) = Inl (SystemExit 1)
   \<and> ''w1_R1.fastq'' \<notin> dom (files (snd (cleanup [Some ''w1''] tmp_files)))"
  by (simp add: tmp_files_def os_remove_def)

text \<open>
  Claim C2, amended. For a prefix whose \<open>_R1.fastq\<close> file exists and whose
  \<open>_R2.fastq\<close> file is missing, \<open>cleanup\<close> signals the fatal condition (exit status 1)
  after it has deleted the \<open>_R1.fastq\<close> file; nothing else is changed, and the prefixes
  that follow are not visited. For a prefix with both files present it removes both and
  goes on with the rest of the list.
\<close>

theorem cleanup_removes_in_order:
  "(temp_file @ ''_R1.fastq'' \<in> dom (files fs) \<and> temp_file @ ''_R2.fastq'' \<notin> dom (files fs)
      \<longrightarrow> cleanup (Some temp_file # file_list) fs =
            (Inl (SystemExit 1), fs\<lparr>files := (files fs)(temp_file @ ''_R1.fastq'' := None)\<rparr>))
   \<and> (temp_file @ ''_R1.fastq'' \<in> dom (files fs) \<and> temp_file @ ''_R2.fastq'' \<in> dom (files fs)
      \<longrightarrow> cleanup (Some temp_file # file_list) fs =
            cleanup file_list
              (fs\<lparr>files := (files fs)(temp_file @ ''_R1.fastq'' := None,
                                      temp_file @ ''_R2.fastq'' := None)\<rparr>))"
  by (simp add: os_remove_def)

theorem cleanup_removes_in_order_witness:
  "''w1'' @ ''_R1.fastq'' \<in> dom (files tmp_files) \<and> ''w1'' @ ''_R2.fastq'' \<notin> dom (files tmp_files)
   \<and> cleanup [Some ''w1'', Some ''w0''] tmp_files =
     (Inl (SystemExit 1), tmp_files\<lparr>files := (files tmp_files)(''w1_R1.fastq'' := None)\<rparr>)
   \<and> ''w0'' @ ''_R1.fastq'' \<in> dom (files tmp_files) \<and> ''w0'' @ ''_R2.fastq'' \<in> dom (files tmp_files)
   \<and> cleanup [Some ''w0''] tmp_files =
     (Inr (), tmp_files\<lparr>files := (files tmp_files)(''w0_R1.fastq'' := None, ''w0_R2.fastq'' := None)\<rparr>)"
proof -
  have a: "''w1'' @ ''_R1.fastq'' \<in> dom (files tmp_files) \<and> ''w1'' @ ''_R2.fastq'' \<notin> dom (files tmp_files)"
    by (simp add: tmp_files_def)
  have b: "''w0'' @ ''_R1.fastq'' \<in> dom (files tmp_files) \<and> ''w0'' @ ''_R2.fastq'' \<in> dom (files tmp_files)"
    by (simp add: tmp_files_def)
  from cleanup_removes_in_order [of "''w1''" tmp_files "[Some ''w0'']"] a
  have 1: "cleanup [Some ''w1'', Some ''w0''] tmp_files =
     (Inl (SystemExit 1), tmp_files\<lparr>files := (files tmp_files)(''w1_R1.fastq'' := None)\<rparr>)"
    by simp
  from cleanup_removes_in_order [of "''w0''" tmp_files "[]"] b
  have 2: "cleanup [Some ''w0''] tmp_files =
     (Inr (), tmp_files\<lparr>files := (files tmp_files)(''w0_R1.fastq'' := None, ''w0_R2.fastq'' := None)\<rparr>)"
    by simp
  from a b 1 2 show ?thesis by simp
qed

section \<open>reads: the returned name and the GC filter\<close>

lemma py_range_empty: "n \<le> 0 \<Longrightarrow> py_range n = []"
  by (simp add: py_range_def)

lemma to_fastq_nothing:
  assumes "output @ ''_R1.fastq'' \<notin> denied fs" "output @ ''_R2.fastq'' \<notin> denied fs"
  shows "fst (to_fastq [] output fs) = Inr ()"
  using assms by (simp add: to_fastq_def open_append_def Let_def split: option.splits)

text \<open>
  Claim C4 as stated fails: asked for zero pairs in an empty directory, \<open>reads\<close>
  collects no pair, leaves two files without a record and still returns their prefix, not
  \<open>None\<close>.
\<close>

theorem reads_zero_pairs_counterexample:
  "reads_loop chr1 (plain_model 4 2) False (py_range 0) [] zero_rnd = Inr ([], zero_rnd)
   \<and> fst (reads chr1 (plain_model 4 2) 0 0 ''out'' False zero_rnd no_files)
       = Inr (Some ''out.iss.tmp.chr1.0'', zero_rnd)
   \<and> files (snd (reads chr1 (plain_model 4 2) 0 0 ''out'' False zero_rnd no_files))
        ''out.iss.tmp.chr1.0_R1.fastq'' = Some []
   \<and> files (snd (reads chr1 (plain_model 4 2) 0 0 ''out'' False zero_rnd no_files))
        ''out.iss.tmp.chr1.0_R2.fastq'' = Some []"
  by (simp add: reads_def py_range_def to_fastq_def open_append_def no_files_def chr1_def
      str_int_0)

text \<open>
  Claim C4, amended. Whenever \<open>reads\<close> returns, it returns the path of the worker's
  temporary output, \<open>output + '.iss.tmp.<id>.<cpu_number>'\<close>, never an absent value; it
  does so also for a worker that produced zero pairs.
\<close>

theorem reads_returns_file_name:
  "(fst (reads record em n_pairs cpu_number output gc_bias g fs) = Inr (r, g') \<longrightarrow>
      r = Some (output @ ''.iss.tmp.'' @ sr_id record @ ''.'' @ str_int cpu_number))
   \<and> (n_pairs \<le> 0
      \<and> output @ ''.iss.tmp.'' @ sr_id record @ ''.'' @ str_int cpu_number @ ''_R1.fastq'' \<notin> denied fs
      \<and> output @ ''.iss.tmp.'' @ sr_id record @ ''.'' @ str_int cpu_number @ ''_R2.fastq'' \<notin> denied fs
      \<longrightarrow> fst (reads record em n_pairs cpu_number output gc_bias g fs) =
            Inr (Some (output @ ''.iss.tmp.'' @ sr_id record @ ''.'' @ str_int cpu_number), g))"
proof (intro conjI impI)
  assume "fst (reads record em n_pairs cpu_number output gc_bias g fs) = Inr (r, g')"
  then show "r = Some (output @ ''.iss.tmp.'' @ sr_id record @ ''.'' @ str_int cpu_number)"
    by (auto simp: reads_def Let_def split: sum.splits prod.splits)
next
  let ?tmp = "output @ ''.iss.tmp.'' @ sr_id record @ ''.'' @ str_int cpu_number"
  assume a: "n_pairs \<le> 0
      \<and> output @ ''.iss.tmp.'' @ sr_id record @ ''.'' @ str_int cpu_number @ ''_R1.fastq'' \<notin> denied fs
      \<and> output @ ''.iss.tmp.'' @ sr_id record @ ''.'' @ str_int cpu_number @ ''_R2.fastq'' \<notin> denied fs"
  then have "fst (to_fastq [] ?tmp fs) = Inr ()"
    by (intro to_fastq_nothing) simp_all
  then obtain fs' where "to_fastq [] ?tmp fs = (Inr (), fs')"
    by (cases "to_fastq [] ?tmp fs") simp
  then show "fst (reads record em n_pairs cpu_number output gc_bias g fs) = Inr (Some ?tmp, g)"
    using a by (simp add: reads_def py_range_empty Let_def)
qed

theorem reads_returns_file_name_witness:
  "(0::int) \<le> 0
   \<and> ''out'' @ ''.iss.tmp.'' @ sr_id chr1 @ ''.'' @ str_int 0 @ ''_R1.fastq'' \<notin> denied no_files
   \<and> ''out'' @ ''.iss.tmp.'' @ sr_id chr1 @ ''.'' @ str_int 0 @ ''_R2.fastq'' \<notin> denied no_files
   \<and> fst (reads chr1 (plain_model 4 2) 0 0 ''out'' False zero_rnd no_files)
       = Inr (Some (''out'' @ ''.iss.tmp.'' @ sr_id chr1 @ ''.'' @ str_int 0), zero_rnd)"
proof -
  have d: "(0::int) \<le> 0
     \<and> ''out'' @ ''.iss.tmp.'' @ sr_id chr1 @ ''.'' @ str_int 0 @ ''_R1.fastq'' \<notin> denied no_files
     \<and> ''out'' @ ''.iss.tmp.'' @ sr_id chr1 @ ''.'' @ str_int 0 @ ''_R2.fastq'' \<notin> denied no_files"
    by (simp add: no_files_def)
  have t: "fst (reads chr1 (plain_model 4 2) 0 0 ''out'' False zero_rnd no_files)
       = Inr (Some (''out'' @ ''.iss.tmp.'' @ sr_id chr1 @ ''.'' @ str_int 0), zero_rnd)"
    using reads_returns_file_name
      [of chr1 "plain_model 4 2" 0 0 "''out''" False zero_rnd no_files None zero_rnd] d
    by blast
  from d t show ?thesis by blast
qed

lemma reads_loop_step:
  assumes "simulate_read record em i g = Inr ((forward, reverse), g1)"
  shows "reads_loop record em gc_bias (i # todo) read_tuple_list g =
     (if \<not> gc_bias then
        reads_loop record em gc_bias todo (read_tuple_list @ [(forward, reverse)]) g1
      else if 40 < GC (sr_seq forward @ sr_seq reverse) \<and> GC (sr_seq forward @ sr_seq reverse) < 60
      then reads_loop record em gc_bias todo (read_tuple_list @ [(forward, reverse)]) g1
      else reads_loop record em gc_bias todo
             (if fst (rand g1) < 90 / 100 then read_tuple_list @ [(forward, reverse)]
              else read_tuple_list)
             (snd (rand g1)))"
proof -
  obtain u g2 where r: "rand g1 = (u, g2)" by (cases "rand g1")
  show ?thesis
  proof (cases "40 < GC (sr_seq forward @ sr_seq reverse)")
    case True
    with assms r show ?thesis by (simp add: Let_def)
  next
    case False
    with assms r show ?thesis by (simp add: Let_def)
  qed
qed

lemma reads_loop_keeps:
  "reads_loop record em gc_bias todo acc h = Inr (out, h') \<Longrightarrow> take (length acc) out = acc"
proof (induction todo arbitrary: acc h)
  case Nil
  then show ?case by simp
next
  case (Cons i todo)
  show ?case
  proof (cases "simulate_read record em i h")
    case (Inl e)
    with Cons.prems show ?thesis by simp
  next
    case (Inr x)
    then obtain forward reverse g1 where
      s: "simulate_read record em i h = Inr ((forward, reverse), g1)"
      by (cases x) auto
    from Cons.prems reads_loop_step [OF s, of gc_bias todo acc]
    have "reads_loop record em gc_bias todo (acc @ [(forward, reverse)]) g1 = Inr (out, h')
        \<or> reads_loop record em gc_bias todo (acc @ [(forward, reverse)]) (snd (rand g1)) = Inr (out, h')
        \<or> reads_loop record em gc_bias todo acc (snd (rand g1)) = Inr (out, h')"
      by (auto split: if_splits)
    then show ?thesis
    proof (elim disjE)
      assume "reads_loop record em gc_bias todo (acc @ [(forward, reverse)]) g1 = Inr (out, h')"
      from Cons.IH [OF this] have "take (length acc) (take (Suc (length acc)) out) = take (length acc) (acc @ [(forward, reverse)])"
        by simp
      then show ?thesis by (simp add: min_def)
    next
      assume "reads_loop record em gc_bias todo (acc @ [(forward, reverse)]) (snd (rand g1)) = Inr (out, h')"
      from Cons.IH [OF this] have "take (length acc) (take (Suc (length acc)) out) = take (length acc) (acc @ [(forward, reverse)])"
        by simp
      then show ?thesis by (simp add: min_def)
    next
      assume "reads_loop record em gc_bias todo acc (snd (rand g1)) = Inr (out, h')"
      from Cons.IH [OF this] show ?thesis .
    qed
  qed
qed

lemma reads_loop_unfiltered_length:
  "reads_loop record em False todo acc h = Inr (out, h') \<Longrightarrow> length out = length acc + length todo"
proof (induction todo arbitrary: acc h)
  case Nil
  then show ?case by simp
next
  case (Cons i todo)
  show ?case
  proof (cases "simulate_read record em i h")
    case (Inl e)
    with Cons.prems show ?thesis by simp
  next
    case (Inr x)
    then obtain forward reverse g1 where
      s: "simulate_read record em i h = Inr ((forward, reverse), g1)"
      by (cases x) auto
    from Cons.prems reads_loop_step [OF s, of False todo acc]
    have "reads_loop record em False todo (acc @ [(forward, reverse)]) g1 = Inr (out, h')"
      by simp
    from Cons.IH [OF this] show ?thesis by simp
  qed
qed

text \<open>
  Claim C7. Every turn of the loop of \<open>reads\<close>, wherever it stands in the batch, on the
  pair \<open>simulate_read\<close> returns: without GC-bias filtering the pair is appended; with
  filtering and a GC content of the stitched sequence strictly between 40 and 60 it is
  appended and no draw is made; otherwise one \<open>rand()\<close> is drawn, and the pair is
  appended exactly when the draw is below 0.90. The loop goes on with the rest of the batch
  from there and returns the list when the batch is done; a pair once appended stays in
  the list, and without filtering the list grows by one pair per turn.
\<close>

theorem gc_bias_acceptance:
  assumes "simulate_read record em i g = Inr ((forward, reverse), g1)"
  shows "(\<not> gc_bias \<longrightarrow>
            reads_loop record em gc_bias (i # todo) read_tuple_list g
              = reads_loop record em gc_bias todo (read_tuple_list @ [(forward, reverse)]) g1)
       \<and> (gc_bias \<and> 40 < GC (sr_seq forward @ sr_seq reverse)
                  \<and> GC (sr_seq forward @ sr_seq reverse) < 60 \<longrightarrow>
            reads_loop record em gc_bias (i # todo) read_tuple_list g
              = reads_loop record em gc_bias todo (read_tuple_list @ [(forward, reverse)]) g1)
       \<and> (gc_bias \<and> \<not> (40 < GC (sr_seq forward @ sr_seq reverse)
                       \<and> GC (sr_seq forward @ sr_seq reverse) < 60) \<longrightarrow>
            reads_loop record em gc_bias (i # todo) read_tuple_list g
              = reads_loop record em gc_bias todo
                  (if fst (rand g1) < 90 / 100 then read_tuple_list @ [(forward, reverse)]
                   else read_tuple_list)
                  (snd (rand g1)))
       \<and> reads_loop record em gc_bias [] read_tuple_list g = Inr (read_tuple_list, g)
       \<and> (reads_loop record em gc_bias todo acc h = Inr (out, h') \<longrightarrow>
            take (length acc) out = acc)
       \<and> (reads_loop record em False todo acc h = Inr (out, h') \<longrightarrow>
            length out = length acc + length todo)"
proof (intro conjI impI)
  assume "\<not> gc_bias"
  then show "reads_loop record em gc_bias (i # todo) read_tuple_list g
      = reads_loop record em gc_bias todo (read_tuple_list @ [(forward, reverse)]) g1"
    unfolding reads_loop_step [OF assms] by simp
next
  assume "gc_bias \<and> 40 < GC (sr_seq forward @ sr_seq reverse)
                  \<and> GC (sr_seq forward @ sr_seq reverse) < 60"
  then show "reads_loop record em gc_bias (i # todo) read_tuple_list g
      = reads_loop record em gc_bias todo (read_tuple_list @ [(forward, reverse)]) g1"
    unfolding reads_loop_step [OF assms] by simp
next
  assume a: "gc_bias \<and> \<not> (40 < GC (sr_seq forward @ sr_seq reverse)
                       \<and> GC (sr_seq forward @ sr_seq reverse) < 60)"
  show "reads_loop record em gc_bias (i # todo) read_tuple_list g
      = reads_loop record em gc_bias todo
                  (if fst (rand g1) < 90 / 100 then read_tuple_list @ [(forward, reverse)]
                   else read_tuple_list)
                  (snd (rand g1))"
  proof (cases "40 < GC (sr_seq forward @ sr_seq reverse)")
    case True
    with a have "\<not> GC (sr_seq forward @ sr_seq reverse) < 60" by simp
    with a True show ?thesis unfolding reads_loop_step [OF assms] by simp
  next
    case False
    with a show ?thesis unfolding reads_loop_step [OF assms] by simp
  qed
next
  show "reads_loop record em gc_bias [] read_tuple_list g = Inr (read_tuple_list, g)"
    by simp
next
  assume "reads_loop record em gc_bias todo acc h = Inr (out, h')"
  then show "take (length acc) out = acc" by (rule reads_loop_keeps)
next
  assume "reads_loop record em False todo acc h = Inr (out, h')"
  then show "length out = length acc + length todo" by (rule reads_loop_unfiltered_length)
qed


lemma str_int_1: "str_int 1 = ''1''"
  by code_simp

theorem gc_bias_acceptance_witness:
  "simulate_read chr1 (plain_model 4 2) 0 zero_rnd =
     Inr ((\<lparr>sr_seq = ''ACGT'', sr_id = ''chr1_0_1'', sr_description = [],
              sr_quality = Some [40, 40, 40, 40]\<rparr>,
           \<lparr>sr_seq = ''GTAC'', sr_id = ''chr1_0_2'', sr_description = [],
              sr_quality = Some [40, 40, 40, 40]\<rparr>), zero_rnd)
   \<and> simulate_read chr1 (plain_model 4 2) 1 zero_rnd =
     Inr ((\<lparr>sr_seq = ''ACGT'', sr_id = ''chr1_1_1'', sr_description = [],
              sr_quality = Some [40, 40, 40, 40]\<rparr>,
           \<lparr>sr_seq = ''GTAC'', sr_id = ''chr1_1_2'', sr_description = [],
              sr_quality = Some [40, 40, 40, 40]\<rparr>), zero_rnd)
   \<and> GC (''ACGT'' @ ''GTAC'') = 50
   \<and> reads_loop chr1 (plain_model 4 2) True [0, 1] [] zero_rnd =
       Inr ([(\<lparr>sr_seq = ''ACGT'', sr_id = ''chr1_0_1'', sr_description = [],
                 sr_quality = Some [40, 40, 40, 40]\<rparr>,
              \<lparr>sr_seq = ''GTAC'', sr_id = ''chr1_0_2'', sr_description = [],
                 sr_quality = Some [40, 40, 40, 40]\<rparr>),
             (\<lparr>sr_seq = ''ACGT'', sr_id = ''chr1_1_1'', sr_description = [],
                 sr_quality = Some [40, 40, 40, 40]\<rparr>,
              \<lparr>sr_seq = ''GTAC'', sr_id = ''chr1_1_2'', sr_description = [],
                 sr_quality = Some [40, 40, 40, 40]\<rparr>)], zero_rnd)
   \<and> simulate_read poly_a (plain_model 4 2) 0 high_rnd =
     Inr ((\<lparr>sr_seq = ''AAAA'', sr_id = ''polyA_0_1'', sr_description = [],
              sr_quality = Some [40, 40, 40, 40]\<rparr>,
           \<lparr>sr_seq = ''TTTT'', sr_id = ''polyA_0_2'', sr_description = [],
              sr_quality = Some [40, 40, 40, 40]\<rparr>), high_rnd)
   \<and> simulate_read poly_a (plain_model 4 2) 1 high_rnd =
     Inr ((\<lparr>sr_seq = ''AAAA'', sr_id = ''polyA_1_1'', sr_description = [],
              sr_quality = Some [40, 40, 40, 40]\<rparr>,
           \<lparr>sr_seq = ''TTTT'', sr_id = ''polyA_1_2'', sr_description = [],
              sr_quality = Some [40, 40, 40, 40]\<rparr>), high_rnd)
   \<and> GC (''AAAA'' @ ''TTTT'') = 0 \<and> rand high_rnd = (95 / 100, high_rnd)
   \<and> reads_loop poly_a (plain_model 4 2) True [0, 1] [] high_rnd = Inr ([], high_rnd)
   \<and> reads_loop poly_a (plain_model 4 2) False [0, 1] [] high_rnd =
       Inr ([(\<lparr>sr_seq = ''AAAA'', sr_id = ''polyA_0_1'', sr_description = [],
                 sr_quality = Some [40, 40, 40, 40]\<rparr>,
              \<lparr>sr_seq = ''TTTT'', sr_id = ''polyA_0_2'', sr_description = [],
                 sr_quality = Some [40, 40, 40, 40]\<rparr>),
             (\<lparr>sr_seq = ''AAAA'', sr_id = ''polyA_1_1'', sr_description = [],
                 sr_quality = Some [40, 40, 40, 40]\<rparr>,
              \<lparr>sr_seq = ''TTTT'', sr_id = ''polyA_1_2'', sr_description = [],
                 sr_quality = Some [40, 40, 40, 40]\<rparr>)], high_rnd)"
proof -
  let ?pm = "plain_model 4 2"
  let ?f0 = "\<lparr>sr_seq = ''ACGT'', sr_id = ''chr1_0_1'', sr_description = [],
              sr_quality = Some [40, 40, 40, 40]\<rparr>"
  let ?r0 = "\<lparr>sr_seq = ''GTAC'', sr_id = ''chr1_0_2'', sr_description = [],
              sr_quality = Some [40, 40, 40, 40]\<rparr>"
  let ?f1 = "\<lparr>sr_seq = ''ACGT'', sr_id = ''chr1_1_1'', sr_description = [],
              sr_quality = Some [40, 40, 40, 40]\<rparr>"
  let ?r1 = "\<lparr>sr_seq = ''GTAC'', sr_id = ''chr1_1_2'', sr_description = [],
              sr_quality = Some [40, 40, 40, 40]\<rparr>"
  let ?fa0 = "\<lparr>sr_seq = ''AAAA'', sr_id = ''polyA_0_1'', sr_description = [],
              sr_quality = Some [40, 40, 40, 40]\<rparr>"
  let ?ra0 = "\<lparr>sr_seq = ''TTTT'', sr_id = ''polyA_0_2'', sr_description = [],
              sr_quality = Some [40, 40, 40, 40]\<rparr>"
  let ?fa1 = "\<lparr>sr_seq = ''AAAA'', sr_id = ''polyA_1_1'', sr_description = [],
              sr_quality = Some [40, 40, 40, 40]\<rparr>"
  let ?ra1 = "\<lparr>sr_seq = ''TTTT'', sr_id = ''polyA_1_2'', sr_description = [],
              sr_quality = Some [40, 40, 40, 40]\<rparr>"
  have a0: "simulate_read chr1 ?pm 0 zero_rnd = Inr ((?f0, ?r0), zero_rnd)"
    by (simp add: simulate_read_def sim_defs zero_rnd_def)
  have a1: "simulate_read chr1 ?pm 1 zero_rnd = Inr ((?f1, ?r1), zero_rnd)"
    by (simp add: simulate_read_def sim_defs str_int_1 zero_rnd_def)
  have b0: "simulate_read poly_a ?pm 0 high_rnd = Inr ((?fa0, ?ra0), high_rnd)"
    by (simp add: simulate_read_def sim_defs poly_a_def high_rnd_def)
  have b1: "simulate_read poly_a ?pm 1 high_rnd = Inr ((?fa1, ?ra1), high_rnd)"
    by (simp add: simulate_read_def sim_defs str_int_1 poly_a_def high_rnd_def)
  have g1: "GC (''ACGT'' @ ''GTAC'') = 50" by (simp add: GC_def)
  have g2: "GC (''AAAA'' @ ''TTTT'') = 0" by (simp add: GC_def)
  have u: "rand high_rnd = (95 / 100, high_rnd)" by (simp add: rand_def high_rnd_def)
  note in0 = gc_bias_acceptance
    [OF a0, where gc_bias = True and todo = "[1]" and read_tuple_list = "[]",
      THEN conjunct2, THEN conjunct1]
  note in1 = gc_bias_acceptance
    [OF a1, where gc_bias = True and todo = "[]" and read_tuple_list = "[(?f0, ?r0)]",
      THEN conjunct2, THEN conjunct1]
  have 1: "reads_loop chr1 ?pm True [0, 1] [] zero_rnd = Inr ([(?f0, ?r0), (?f1, ?r1)], zero_rnd)"
    using in0 in1 g1 by (simp del: reads_loop.simps add: reads_loop.simps(1))
  note out0 = gc_bias_acceptance
    [OF b0, where gc_bias = True and todo = "[1]" and read_tuple_list = "[]",
      THEN conjunct2, THEN conjunct2, THEN conjunct1]
  note out1 = gc_bias_acceptance
    [OF b1, where gc_bias = True and todo = "[]" and read_tuple_list = "[]",
      THEN conjunct2, THEN conjunct2, THEN conjunct1]
  have 2: "reads_loop poly_a ?pm True [0, 1] [] high_rnd = Inr ([], high_rnd)"
    using out0 out1 g2 u by (simp del: reads_loop.simps add: reads_loop.simps(1))
  note off0 = gc_bias_acceptance
    [OF b0, where gc_bias = False and todo = "[1]" and read_tuple_list = "[]", THEN conjunct1]
  note off1 = gc_bias_acceptance
    [OF b1, where gc_bias = False and todo = "[]" and read_tuple_list = "[(?fa0, ?ra0)]",
      THEN conjunct1]
  have 3: "reads_loop poly_a ?pm False [0, 1] [] high_rnd
      = Inr ([(?fa0, ?ra0), (?fa1, ?ra1)], high_rnd)"
    using off0 off1 by (simp del: reads_loop.simps add: reads_loop.simps(1))
  from a0 a1 b0 b1 g1 g2 u 1 2 3 show ?thesis by (intro conjI)
qed

section \<open>reservoir: which records can be drawn\<close>

lemma sample_picks_props:
  "k \<le> length pool \<Longrightarrow> distinct pool \<Longrightarrow>
   length (fst (sample_picks pool k t)) = k
   \<and> distinct (fst (sample_picks pool k t))
   \<and> set (fst (sample_picks pool k t)) \<subseteq> set pool"
proof (induction k arbitrary: pool t)
  case 0
  then show ?case by simp
next
  case (Suc k)
  define j where "j = t 0 mod length pool"
  define pool' where "pool' = take j pool @ drop (Suc j) pool"
  have len: "0 < length pool" using Suc.prems(1) by (cases pool) simp_all
  then have j: "j < length pool" by (simp add: j_def)
  have lp: "length pool' = length pool - 1" using j by (simp add: pool'_def)
  have pool: "pool = take j pool @ pool ! j # drop (Suc j) pool"
    using j by (simp add: id_take_nth_drop)
  have d: "distinct (take j pool @ pool ! j # drop (Suc j) pool)"
    using Suc.prems(2) pool by simp
  have dp: "distinct pool'" using d by (simp add: pool'_def)
  have notin: "pool ! j \<notin> set pool'" using d by (auto simp: pool'_def)
  have sub: "set pool' \<subseteq> set pool"
    by (auto simp: pool'_def dest: in_set_takeD in_set_dropD)
  have k: "k \<le> length pool'" using Suc.prems(1) lp by simp
  note ih = Suc.IH [OF k dp, of "\<lambda>i. t (Suc i)"]
  obtain rest t' where r: "sample_picks pool' k (\<lambda>i. t (Suc i)) = (rest, t')"
    by (cases "sample_picks pool' k (\<lambda>i. t (Suc i))")
  have eq: "fst (sample_picks pool (Suc k) t) = pool ! j # rest"
    using r by (simp add: Let_def j_def pool'_def)
  from ih r have "length rest = k" "distinct rest" "set rest \<subseteq> set pool'" by simp_all
  with notin sub j show ?case
    unfolding eq by auto
qed

lemma py_range_distinct: "distinct (py_range m)"
  by (simp add: py_range_def distinct_map inj_on_def)

lemma py_range_set: "set (py_range m) = {s. 0 \<le> s \<and> s < m}"
proof -
  have "s \<in> int ` {0..<nat m} \<longleftrightarrow> 0 \<le> s \<and> s < m" for s
  proof
    assume "s \<in> int ` {0..<nat m}"
    then show "0 \<le> s \<and> s < m" by auto
  next
    assume "0 \<le> s \<and> s < m"
    then have "nat s \<in> {0..<nat m}" "s = int (nat s)" by simp_all
    then show "s \<in> int ` {0..<nat m}" by (rule_tac image_eqI)
  qed
  then show ?thesis by (auto simp: py_range_def)
qed

lemma py_range_length: "length (py_range m) = nat m"
  by (simp add: py_range_def)

lemma skip_records_drop:
  "x \<le> sample \<Longrightarrow> nat (sample - x) \<le> length recs \<Longrightarrow>
   skip_records x sample recs = Inr (sample, drop (nat (sample - x)) recs)"
proof (induction recs arbitrary: x)
  case Nil
  then show ?case by simp
next
  case (Cons r recs)
  show ?case
  proof (cases "x < sample")
    case True
    then have "nat (sample - x) = Suc (nat (sample - (x + 1)))" by simp
    moreover from True Cons.prems have "x + 1 \<le> sample" "nat (sample - (x + 1)) \<le> length recs"
      by simp_all
    ultimately show ?thesis using True Cons.IH [of "x + 1"] by simp
  next
    case False
    with Cons.prems show ?thesis by simp
  qed
qed

lemma reservoir_loop_nths:
  "sorted_wrt (<) samples \<Longrightarrow> \<forall>s \<in> set samples. x \<le> s \<and> s < int (length orig) \<Longrightarrow> 0 \<le> x \<Longrightarrow>
   reservoir_loop samples x (drop (nat x) orig) = Inr (map (\<lambda>s. orig ! nat s) samples)"
proof (induction samples arbitrary: x)
  case Nil
  then show ?case by simp
next
  case (Cons s ss)
  have xs: "x \<le> s" and sl: "s < int (length orig)" using Cons.prems(2) by simp_all
  have "nat (s - x) \<le> length (drop (nat x) orig)" using xs sl Cons.prems(3) by simp
  from skip_records_drop [OF xs this]
  have "skip_records x s (drop (nat x) orig) = Inr (s, drop (nat (s - x) + nat x) orig)"
    by simp
  moreover have "nat (s - x) + nat x = nat s" using xs Cons.prems(3) by simp
  ultimately have skip: "skip_records x s (drop (nat x) orig) = Inr (s, drop (nat s) orig)"
    by simp
  have ns: "nat s < length orig" using sl xs Cons.prems(3) by simp
  have drop: "drop (nat s) orig = orig ! nat s # drop (nat (s + 1)) orig"
    using ns xs Cons.prems(3) by (simp add: Cons_nth_drop_Suc nat_add_distrib)
  have "sorted_wrt (<) ss" using Cons.prems(1) by simp
  moreover have "\<forall>s' \<in> set ss. s + 1 \<le> s' \<and> s' < int (length orig)"
    using Cons.prems(1,2) by auto
  moreover have "0 \<le> s + 1" using xs Cons.prems(3) by simp
  ultimately have "reservoir_loop ss (s + 1) (drop (nat (s + 1)) orig)
      = Inr (map (\<lambda>s. orig ! nat s) ss)"
    by (rule Cons.IH)
  with skip drop show ?case by simp
qed

lemma sort_strict:
  fixes xs :: "int list"
  assumes "distinct xs"
  shows "sorted_wrt (<) (sort xs)"
proof -
  have "sorted (sort xs)" "distinct (sort xs)" using assms by simp_all
  then show ?thesis by (simp add: strict_sorted_iff)
qed

lemma reservoir_result:
  assumes "length records = length record_list" "0 \<le> n" "n < int (length record_list)"
  shows "\<exists>idx g'. reservoir records record_list (Some n) g = Inr (map (\<lambda>s. records ! nat s) idx, g')
           \<and> length idx = nat n \<and> sorted_wrt (<) idx
           \<and> (\<forall>s \<in> set idx. 0 \<le> s \<and> s < int (length records) - 1)"
proof -
  let ?total = "int (length record_list)"
  let ?pool = "py_range (?total - 1)"
  obtain picked t' where p: "sample_picks ?pool (nat n) (py g) = (picked, t')"
    by (cases "sample_picks ?pool (nat n) (py g)")
  have k: "nat n \<le> length ?pool" using assms(2,3) unfolding py_range_length by linarith
  from sample_picks_props [OF k py_range_distinct, of "py g"] p
  have pk: "length picked = nat n" "distinct picked" "set picked \<subseteq> set ?pool" by simp_all
  have "int (length ?pool) = int (nat (?total - 1))"
    by (simp only: py_range_length)
  also have "\<dots> = ?total - 1" using assms(2,3) by linarith
  finally have guard: "\<not> (n < 0 \<or> int (length ?pool) < n)"
    using assms(2,3) by linarith
  have rs: "random_sample ?pool n g = Inr (picked, g\<lparr>py := t'\<rparr>)"
    unfolding random_sample_def using guard p by simp
  let ?idx = "sort picked"
  have s1: "sorted_wrt (<) ?idx" using pk(2) by (rule sort_strict)
  have s2: "\<forall>s \<in> set ?idx. 0 \<le> s \<and> s < int (length records) - 1"
    using pk(3) assms(1) by (auto simp: py_range_set)
  then have s3: "\<forall>s \<in> set ?idx. 0 \<le> s \<and> s < int (length records)" by auto
  from reservoir_loop_nths [OF s1 s3, simplified]
  have loop: "reservoir_loop ?idx 0 records = Inr (map (\<lambda>s. records ! nat s) ?idx)" by simp
  have "reservoir records record_list (Some n) g = Inr (map (\<lambda>s. records ! nat s) ?idx, g\<lparr>py := t'\<rparr>)"
    using assms(3) rs loop by (simp add: reservoir_def Let_def)
  moreover have "length ?idx = nat n" using pk(1) by simp
  ultimately show ?thesis using s1 s2 by blast
qed

text \<open>
  Claim C3. \<open>reservoir\<close> leaves the process with status 1 when \<open>n \<ge> total\<close>. For
  \<open>0 \<le> n < total\<close>, on a source of \<open>total\<close> records, it yields \<open>n\<close> records at
  strictly increasing positions of the source. But the positions are sampled from
  \<open>range(0, total - 1)\<close>, which stops one short: every position is below \<open>total - 1\<close>,
  so the last record is never yielded, and from two records with \<open>n = 1\<close> the result is
  the first record whatever the draws are.
\<close>

theorem reservoir_never_yields_last:
  "(\<not> n < int (length record_list) \<longrightarrow>
      reservoir records record_list (Some n) g = Inl (SystemExit 1))
   \<and> (length records = length record_list \<and> 0 \<le> n \<and> n < int (length record_list) \<longrightarrow>
      (\<exists>idx g'. reservoir records record_list (Some n) g = Inr (map (\<lambda>s. records ! nat s) idx, g')
           \<and> length idx = nat n \<and> sorted_wrt (<) idx
           \<and> (\<forall>s \<in> set idx. 0 \<le> s \<and> s < int (length records) - 1)))
   \<and> map_sum id fst (reservoir [a, b] [a, b] (Some 1) g) = Inr [a]"
proof (intro conjI impI)
  assume "\<not> n < int (length record_list)"
  then show "reservoir records record_list (Some n) g = Inl (SystemExit 1)"
    by (simp add: reservoir_def Let_def)
next
  assume "length records = length record_list \<and> 0 \<le> n \<and> n < int (length record_list)"
  then show "\<exists>idx g'. reservoir records record_list (Some n) g = Inr (map (\<lambda>s. records ! nat s) idx, g')
           \<and> length idx = nat n \<and> sorted_wrt (<) idx
           \<and> (\<forall>s \<in> set idx. 0 \<le> s \<and> s < int (length records) - 1)"
    using reservoir_result by blast
next
  show "map_sum id fst (reservoir [a, b] [a, b] (Some 1) g) = Inr [a]"
    by (simp add: reservoir_def random_sample_def py_range_def Let_def)
qed


theorem reservoir_never_yields_last_witness:
  "length ''abcde'' = length ''abcde'' \<and> (0::int) \<le> 2 \<and> 2 < int (length ''abcde'')
   \<and> (\<exists>idx g'. reservoir ''abcde'' ''abcde'' (Some 2) count_rnd
                   = Inr (map (\<lambda>s. ''abcde'' ! nat s) idx, g')
          \<and> length idx = nat 2 \<and> sorted_wrt (<) idx
          \<and> (\<forall>s \<in> set idx. 0 \<le> s \<and> s < int (length ''abcde'') - 1))
   \<and> map_sum id fst (reservoir ''abcde'' ''abcde'' (Some 2) count_rnd) = Inr ''ab''
   \<and> reservoir ''abcde'' ''abcde'' (Some 5) count_rnd = Inl (SystemExit 1)"
proof -
  have h: "length ''abcde'' = length ''abcde'' \<and> (0::int) \<le> 2 \<and> 2 < int (length ''abcde'')"
    by simp
  have e: "map_sum id fst (reservoir ''abcde'' ''abcde'' (Some 2) count_rnd) = Inr ''ab''"
    by code_simp
  have f: "\<not> 5 < int (length ''abcde'')" by simp
  note picked = reservoir_never_yields_last
    [of 2 "''abcde''" "''abcde''" count_rnd "CHR ''a''" "CHR ''b''",
      THEN conjunct2, THEN conjunct1, THEN mp, OF h]
  note fatal = reservoir_never_yields_last
    [of 5 "''abcde''" "''abcde''" count_rnd "CHR ''a''" "CHR ''b''", THEN conjunct1, THEN mp, OF f]
  from h picked e fatal show ?thesis by (intro conjI) simp_all
qed

end
